theory Spec2Isabelle
  imports Main "HOL-Library.AList"
begin

section \<open>Text\<close>

text \<open>
  The response text and every candidate command are Python \<^verbatim>\<open>str\<close> values. They are
  modelled as \<^typ>\<open>string\<close>, one \<^typ>\<open>char\<close> per code point, so the model covers text
  whose code points lie below 256 (ASCII and Latin-1); \<^verbatim>\<open>len\<close> is \<^const>\<open>length\<close> and
  the slice \<^verbatim>\<open>s[:n]\<close> is \<^const>\<open>take\<close>.

  \<^verbatim>\<open>is_space\<close> is the whitespace test shared by the pattern class \<^verbatim>\<open>\s\<close> and by
  \<^verbatim>\<open>str.split()\<close>; \<^verbatim>\<open>is_word\<close> is the class \<^verbatim>\<open>\w\<close> (alphanumeric or underscore);
  \<^verbatim>\<open>py_lower\<close> is the simple lower-case mapping by which a pattern compiled with
  \<^verbatim>\<open>re.IGNORECASE\<close> compares a literal with a character of the text. Below 256 a
  letter of a pattern matches itself and its other case only. Beyond that range
  Python also lets \<^verbatim>\<open>s\<close> match U+017F, \<^verbatim>\<open>k\<close> match U+212A and \<^verbatim>\<open>i\<close> match
  U+0130 and U+0131; text with such characters is outside this model.
\<close>

definition is_space :: "char \<Rightarrow> bool" where
  "is_space c \<longleftrightarrow> c \<in> set [CHR 0x09, CHR 0x0A, CHR 0x0B, CHR 0x0C, CHR 0x0D,
      CHR 0x1C, CHR 0x1D, CHR 0x1E, CHR 0x1F, CHR 0x20, CHR 0x85, CHR 0xA0]"

definition is_word :: "char \<Rightarrow> bool" where
  "is_word c \<longleftrightarrow> (let n = (of_char c :: nat) in
      (48 \<le> n \<and> n \<le> 57) \<or> (65 \<le> n \<and> n \<le> 90) \<or> n = 95 \<or> (97 \<le> n \<and> n \<le> 122) \<or>
      n \<in> set [170, 178, 179, 181, 185, 186, 188, 189, 190] \<or>
      (192 \<le> n \<and> n \<le> 214) \<or> (216 \<le> n \<and> n \<le> 246) \<or> (248 \<le> n \<and> n \<le> 255))"

definition py_lower :: "char \<Rightarrow> char" where
  "py_lower c = (let n = (of_char c :: nat) in
      if (65 \<le> n \<and> n \<le> 90) \<or> (192 \<le> n \<and> n \<le> 222 \<and> n \<noteq> 215)
      then char_of (n + 32) else c)"

text \<open>\<^verbatim>\<open>s.startswith(p)\<close> and the substring test \<^verbatim>\<open>sub in s\<close>.\<close>

definition startswith :: "string \<Rightarrow> string \<Rightarrow> bool" where
  "startswith s p \<longleftrightarrow> take (length p) s = p"

fun contains :: "string \<Rightarrow> string \<Rightarrow> bool" where
  "contains sub [] \<longleftrightarrow> sub = []"
| "contains sub (c # cs) \<longleftrightarrow> startswith (c # cs) sub \<or> contains sub cs"

text \<open>
  \<^verbatim>\<open>s.split()\<close>: the maximal runs of non-whitespace characters, in order. The second
  argument is the token being read.
\<close>

fun split_from :: "string \<Rightarrow> string \<Rightarrow> string list" where
  "split_from [] tok = (if tok = [] then [] else [tok])"
| "split_from (c # cs) tok =
     (if is_space c then (if tok = [] then split_from cs [] else tok # split_from cs [])
      else split_from cs (tok @ [c]))"

definition split_ws :: "string \<Rightarrow> string list" where
  "split_ws s = split_from s []"

text \<open>
  \<^verbatim>\<open>part.split('=', 1)\<close> for a part that contains \<^verbatim>\<open>=\<close>: the text before the first
  \<^verbatim>\<open>=\<close> and the text after it.
\<close>

definition split_eq :: "string \<Rightarrow> string \<times> string" where
  "split_eq part =
     (takeWhile (\<lambda>c. c \<noteq> CHR ''='') part, tl (dropWhile (\<lambda>c. c \<noteq> CHR ''='') part))"

section \<open>Regular expressions as the patterns use them\<close>

text \<open>
  The nine entries of \<^verbatim>\<open>command_patterns\<close> use word boundaries, literals, the classes
  \<^verbatim>\<open>\w\<close>, \<^verbatim>\<open>\s\<close> and \<^verbatim>\<open>[^\s\n]\<close>, sequence, alternation, the greedy repetitions
  \<^verbatim>\<open>*\<close> and \<^verbatim>\<open>+\<close>, one capturing group and non-capturing groups (which are plain
  structure here).
\<close>

datatype cclass = WordCh | SpaceCh | NonSpaceCh

fun in_class :: "cclass \<Rightarrow> char \<Rightarrow> bool" where
  "in_class WordCh c = is_word c"
| "in_class SpaceCh c = is_space c"
| "in_class NonSpaceCh c = (\<not> is_space c \<and> c \<noteq> CHR 0x0A)"

datatype regex =
    Eps
  | WordB
  | Lit char
  | Class cclass
  | Seq regex regex
  | Alt regex regex
  | Star regex
  | Group regex

abbreviation OneOrMore :: "regex \<Rightarrow> regex" where
  "OneOrMore a \<equiv> Seq a (Star a)"

text \<open>
  A matcher state is the current position in the text and the span of group 1, if the
  group has been closed. \<^verbatim>\<open>rmatch r s st\<close> lists the states in which a match of
  \<^verbatim>\<open>r\<close> started in \<^verbatim>\<open>st\<close> can end, in the order in which a backtracking matcher tries
  them: the first alternative before the second, one more iteration of a greedy
  repetition before stopping. The head of the list is the match Python reports.
  Literals are compared through \<^const>\<open>py_lower\<close>, since every pattern is used with
  \<^verbatim>\<open>re.IGNORECASE\<close>; \<^verbatim>\<open>re.MULTILINE\<close> changes only \<^verbatim>\<open>^\<close> and \<^verbatim>\<open>$\<close>, which
  no pattern uses. An iteration of a repetition that consumes nothing is not repeated.
\<close>

type_synonym mstate = "nat \<times> (nat \<times> nat) option"

definition at_boundary :: "string \<Rightarrow> nat \<Rightarrow> bool" where
  "at_boundary s i \<longleftrightarrow>
     (0 < i \<and> is_word (s ! (i - 1))) \<noteq> (i < length s \<and> is_word (s ! i))"

function rmatch :: "regex \<Rightarrow> string \<Rightarrow> mstate \<Rightarrow> mstate list" where
  "rmatch Eps s st = [st]"
| "rmatch WordB s st = (if at_boundary s (fst st) then [st] else [])"
| "rmatch (Lit c) s st =
     (if fst st < length s \<and> py_lower (s ! fst st) = py_lower c
      then [(Suc (fst st), snd st)] else [])"
| "rmatch (Class k) s st =
     (if fst st < length s \<and> in_class k (s ! fst st) then [(Suc (fst st), snd st)] else [])"
| "rmatch (Seq a b) s st = concat (map (rmatch b s) (rmatch a s st))"
| "rmatch (Alt a b) s st = rmatch a s st @ rmatch b s st"
| "rmatch (Star a) s st =
     concat (map (rmatch (Star a) s)
                 (filter (\<lambda>st'. fst st < fst st' \<and> fst st' \<le> length s) (rmatch a s st)))
     @ [st]"
| "rmatch (Group a) s st = map (\<lambda>st'. (fst st', Some (fst st, fst st'))) (rmatch a s st)"
  by pat_completeness auto
termination
  by (relation "measures [\<lambda>(r, s, st). size r, \<lambda>(r, s, st). length s - fst st]") auto

text \<open>The text of group 1 (the empty string when the group did not take part).\<close>

definition group1 :: "string \<Rightarrow> mstate \<Rightarrow> string" where
  "group1 s m = (case snd m of None \<Rightarrow> [] | Some (a, b) \<Rightarrow> take (b - a) (drop a s))"

text \<open>
  \<^verbatim>\<open>re.findall\<close>: try a match at \<^verbatim>\<open>p\<close>; without one go on at \<^verbatim>\<open>p + 1\<close>; with one
  record it and go on where it ended. \<^verbatim>\<open>scan\<close> keeps the start of each match, and
  \<^verbatim>\<open>findall\<close> returns the texts of group 1, as Python does for a pattern with one
  group.
\<close>

function scan :: "regex \<Rightarrow> string \<Rightarrow> nat \<Rightarrow> (nat \<times> mstate) list" where
  "scan r s p =
     (if length s < p then []
      else (case rmatch r s (p, None) of
              [] \<Rightarrow> scan r s (Suc p)
            | m # _ \<Rightarrow> (p, m) # scan r s (if p < fst m then fst m else Suc p)))"
  by pat_completeness auto
termination
  by (relation "measure (\<lambda>(r, s, p). Suc (length s) - p)") auto

definition findall :: "regex \<Rightarrow> string \<Rightarrow> string list" where
  "findall r s = map (\<lambda>(p, m). group1 s m) (scan r s 0)"

section \<open>The command patterns\<close>

fun lits :: "string \<Rightarrow> regex" where
  "lits [] = Eps"
| "lits [c] = Lit c"
| "lits (c # cs) = Seq (Lit c) (lits cs)"

fun alts :: "regex list \<Rightarrow> regex" where
  "alts [] = Eps"
| "alts [r] = r"
| "alts (r # rs) = Alt r (alts rs)"

text \<open>\<^verbatim>\<open>(?:\s+[^\s\n]+)*\<close>, the argument tail shared by all nine patterns.\<close>

definition args_re :: regex where
  "args_re = Star (Seq (OneOrMore (Class SpaceCh)) (OneOrMore (Class NonSpaceCh)))"

text \<open>\<^verbatim>\<open>\b(p\.\w+(?:\s+[^\s\n]+)*)\<close> for a namespace prefix \<^verbatim>\<open>p\<close>.\<close>

definition ns_pattern :: "string \<Rightarrow> regex" where
  "ns_pattern p =
     Seq WordB (Group (Seq (lits p) (Seq (Lit CHR ''.'') (Seq (OneOrMore (Class WordCh)) args_re))))"

text \<open>\<^verbatim>\<open>\b(gdal\w+(?:\s+[^\s\n]+)*)\<close>\<close>

definition gdal_pattern :: regex where
  "gdal_pattern = Seq WordB (Group (Seq (lits ''gdal'') (Seq (OneOrMore (Class WordCh)) args_re)))"

definition linux_tools :: "string list" where
  "linux_tools = [''wget'', ''curl'', ''unzip'', ''tar'', ''gzip'', ''awk'', ''sed'', ''grep'']"

text \<open>\<^verbatim>\<open>\b(wget|curl|unzip|tar|gzip|awk|sed|grep)(?:\s+[^\s\n]+)*\<close>\<close>

definition linux_pattern :: regex where
  "linux_pattern = Seq WordB (Seq (Group (alts (map lits linux_tools))) args_re)"

definition command_patterns :: "regex list" where
  "command_patterns =
     [ns_pattern ''g'', ns_pattern ''r'', ns_pattern ''v'', ns_pattern ''i'', ns_pattern ''db'',
      ns_pattern ''t'', ns_pattern ''m'', gdal_pattern, linux_pattern]"

section \<open>Extraction\<close>

text \<open>
  The inner loop of the extraction: each match that is not yet in
  \<^verbatim>\<open>executed_commands\<close> is appended to it.
\<close>

fun add_matches :: "string list \<Rightarrow> string list \<Rightarrow> string list" where
  "add_matches executed_commands [] = executed_commands"
| "add_matches executed_commands (m # ms) =
     add_matches (if m \<in> set executed_commands then executed_commands
                  else executed_commands @ [m]) ms"

definition extract_commands :: "string \<Rightarrow> string list" where
  "extract_commands response =
     foldl (\<lambda>executed_commands pat. add_matches executed_commands (findall pat response))
       [] command_patterns"

text \<open>All matches of all patterns, in pattern order and text order, before deduplication.\<close>

definition all_matches :: "string \<Rightarrow> string list" where
  "all_matches response = concat (map (\<lambda>pat. findall pat response) command_patterns)"

text \<open>
  Deduplication as the specification words it: by equality, the first occurrence is
  kept, the order of first occurrences is preserved.
\<close>

fun dedup_keep_first :: "'a list \<Rightarrow> 'a list" where
  "dedup_keep_first [] = []"
| "dedup_keep_first (x # xs) = x # dedup_keep_first (filter (\<lambda>y. y \<noteq> x) xs)"

text \<open>No pattern matches at any position of the text.\<close>

definition no_match_anywhere :: "string \<Rightarrow> bool" where
  "no_match_anywhere response \<longleftrightarrow>
     list_all (\<lambda>pat. list_all (\<lambda>i. rmatch pat response (i, None) = []) [0..<Suc (length response)])
       command_patterns"

text \<open>The least number of characters a match of a pattern consumes.\<close>

fun min_len :: "regex \<Rightarrow> nat" where
  "min_len (Lit c) = 1"
| "min_len (Class k) = 1"
| "min_len (Seq a b) = min_len a + min_len b"
| "min_len (Alt a b) = min (min_len a) (min_len b)"
| "min_len (Group a) = min_len a"
| "min_len r = 0"

text \<open>A pattern without a capturing group.\<close>

fun no_group :: "regex \<Rightarrow> bool" where
  "no_group (Group a) = False"
| "no_group (Seq a b) = (no_group a \<and> no_group b)"
| "no_group (Alt a b) = (no_group a \<and> no_group b)"
| "no_group (Star a) = no_group a"
| "no_group r = True"

section \<open>Dispatch\<close>

text \<open>
  The two collaborators are the host's \<^verbatim>\<open>gs.read_command(module, **params)\<close> and
  \<^verbatim>\<open>subprocess.run(argv, capture_output=True, text=True, timeout=t)\<close>. Both act on the
  world outside the program, of type \<^typ>\<open>'w\<close>, and either raise an exception
  (\<^const>\<open>Inl\<close> with the exception's message) or return (\<^const>\<open>Inr\<close>). An expired timeout
  is one of the exceptions of \<^verbatim>\<open>subprocess.run\<close>. The keyword arguments are the
  dictionary \<^verbatim>\<open>params\<close>, kept as an association list in insertion order.
\<close>

record completed_process =
  returncode :: int
  stdout :: string
  stderr :: string

record 'w host =
  read_command :: "string \<Rightarrow> (string \<times> string) list \<Rightarrow> 'w \<Rightarrow> (string + string) \<times> 'w"
  subprocess_run :: "string list \<Rightarrow> nat \<Rightarrow> 'w \<Rightarrow> (string + completed_process) \<times> 'w"

text \<open>
  What the loop reports for one candidate after its numbered header line:
  \<^item> \<^verbatim>\<open>Success out\<close>: the messages "Success:" and \<^verbatim>\<open>out\<close>;
  \<^item> \<^verbatim>\<open>Failed err\<close>: the warning "Failed: err";
  \<^item> \<^verbatim>\<open>UnknownType cmd\<close>: the warning "Unknown command type: cmd";
  \<^item> \<^verbatim>\<open>ErrorExec cmd e\<close>: the warning "Error executing cmd: e" of the exception handler.
\<close>

datatype outcome =
    Success string
  | Failed string
  | UnknownType string
  | ErrorExec string string

definition grass_prefixes :: "string list" where
  "grass_prefixes = [''g.'', ''r.'', ''v.'', ''i.'', ''db.'', ''t.'', ''m.'', ''d.'', ''ps.'', ''r3.'']"

definition is_grass :: "string \<Rightarrow> bool" where
  "is_grass cmd \<longleftrightarrow> list_ex (startswith cmd) grass_prefixes"

definition is_system :: "string \<Rightarrow> bool" where
  "is_system cmd \<longleftrightarrow> startswith cmd ''gdal'' \<or> list_ex (\<lambda>tool. contains tool cmd) linux_tools"

text \<open>The loop over \<^verbatim>\<open>parts[1:]\<close> that fills \<^verbatim>\<open>params\<close>.\<close>

fun parse_params :: "string list \<Rightarrow> (string \<times> string) list \<Rightarrow> (string \<times> string) list" where
  "parse_params [] params = params"
| "parse_params (part # parts) params =
     parse_params parts
       (if CHR ''='' \<in> set part
        then (case split_eq part of (key, val) \<Rightarrow> AList.update key val params)
        else AList.update ''input'' part params)"

text \<open>\<^verbatim>\<open>result[:500] + "..." if len(result) > 500 else result\<close>\<close>

definition truncate_output :: "string \<Rightarrow> string" where
  "truncate_output result = (if length result > 500 then take 500 result @ ''...'' else result)"

text \<open>
  The body of the \<^verbatim>\<open>try\<close> for one candidate, with the handler
  \<^verbatim>\<open>except Exception as e\<close>. \<^verbatim>\<open>parts[0]\<close> raises IndexError on an empty list.
\<close>

definition execute_one :: "'w host \<Rightarrow> string \<Rightarrow> 'w \<Rightarrow> outcome \<times> 'w" where
  "execute_one h cmd w =
     (if is_grass cmd then
        (case split_ws cmd of
           [] \<Rightarrow> (ErrorExec cmd ''list index out of range'', w)
         | module # rest \<Rightarrow>
             (case read_command h module (parse_params rest []) w of
                (Inl e, w') \<Rightarrow> (ErrorExec cmd e, w')
              | (Inr result, w') \<Rightarrow> (Success (truncate_output result), w')))
      else if is_system cmd then
        (case subprocess_run h (split_ws cmd) 60 w of
           (Inl e, w') \<Rightarrow> (ErrorExec cmd e, w')
         | (Inr result, w') \<Rightarrow>
             (if returncode result = 0 then (Success (truncate_output (stdout result)), w')
              else (Failed (stderr result), w')))
      else (UnknownType cmd, w))"

text \<open>
  \<^verbatim>\<open>for i, cmd in enumerate(executed_commands, 1)\<close>: one report per candidate, made of
  its number, the candidate and the outcome.
\<close>

fun dispatch :: "'w host \<Rightarrow> nat \<Rightarrow> string list \<Rightarrow> 'w \<Rightarrow> (nat \<times> string \<times> outcome) list \<times> 'w" where
  "dispatch h i [] w = ([], w)"
| "dispatch h i (cmd # cmds) w =
     (case execute_one h cmd w of
        (out, w') \<Rightarrow>
          (case dispatch h (Suc i) cmds w' of
             (reports, w'') \<Rightarrow> ((i, cmd, out) # reports, w'')))"

text \<open>
  The whole function: the candidates are its return value; the reports and the world
  are its effects.
\<close>

definition extract_and_execute_commands ::
  "'w host \<Rightarrow> string \<Rightarrow> 'w \<Rightarrow> string list \<times> (nat \<times> string \<times> outcome) list \<times> 'w" where
  "extract_and_execute_commands h response w =
     (let executed_commands = extract_commands response in
      (executed_commands,
       if executed_commands \<noteq> [] then dispatch h 1 executed_commands w else ([], w)))"

section \<open>A sample host\<close>

text \<open>
  A host for the concrete instances below. Its world is the log of the calls made so
  far. The module \<^verbatim>\<open>g.region\<close> succeeds, \<^verbatim>\<open>g.list\<close> succeeds with 501
  characters of output, every other module fails; \<^verbatim>\<open>gdalinfo a.tif\<close> exits with
  status 0, \<^verbatim>\<open>wget\<close> runs into the timeout, every other process exits with status 1.
\<close>

datatype call = ReadCommand string "(string \<times> string) list" | SubprocessRun "string list" nat

definition long_output :: string where
  "long_output = replicate 501 CHR ''x''"

definition demo_host :: "call list host" where
  "demo_host =
     \<lparr> read_command = (\<lambda>module params w.
          (if module = ''g.region'' then Inr ''projection: 1''
           else if module = ''g.list'' then Inr long_output
           else Inl ''module not found'',
           w @ [ReadCommand module params])),
       subprocess_run = (\<lambda>argv t w.
          (if argv = [''gdalinfo'', ''a.tif''] then Inr \<lparr> returncode = 0, stdout = ''Driver: GTiff'', stderr = [] \<rparr>
           else if take 1 argv = [''wget''] then Inl ''timed out after 60 seconds''
           else Inr \<lparr> returncode = 1, stdout = [], stderr = ''No such file'' \<rparr>,
           w @ [SubprocessRun argv t])) \<rparr>"

section \<open>The scenario of the specification\<close>

lemma scenario_value:
  "extract_commands ''Run g.region -p and then r.info map=elevation'' =
     [''g.region -p and then r.info map=elevation'', ''r.info map=elevation'']"
  by code_simp

text \<open>
  C3 (as stated): on the text "Run g.region -p and then r.info map=elevation" the
  extraction returns the two candidates "g.region" and "r.info map=elevation". It does
  not: the first candidate is not the bare module name.
\<close>

theorem scenario_not_bare_module:
  "extract_commands ''Run g.region -p and then r.info map=elevation'' \<noteq>
     [''g.region'', ''r.info map=elevation'']"
  using scenario_value by simp

text \<open>
  C3 (amended): on that text the extraction returns two candidates in this order: the
  first starts at "g.region" and carries every following token up to the end of the
  text, the second is "r.info map=elevation".
\<close>

theorem scenario_greedy_candidates:
  "extract_commands ''Run g.region -p and then r.info map=elevation'' =
     [''g.region -p and then r.info map=elevation'', ''r.info map=elevation'']"
  using scenario_value by simp

section \<open>Splitting and classification\<close>

lemma split_from_tok: "tok \<noteq> [] \<Longrightarrow> \<exists>rest. split_from s tok = (tok @ takeWhile (\<lambda>c. \<not> is_space c) s) # rest"
proof (induction s arbitrary: tok)
  case Nil
  then show ?case by simp
next
  case (Cons c cs)
  show ?case
  proof (cases "is_space c")
    case True
    with Cons.prems show ?thesis by simp
  next
    case False
    with Cons.IH [of "tok @ [c]"] show ?thesis by simp
  qed
qed

lemma split_ws_first:
  assumes "s = c # cs" "\<not> is_space c"
  shows "\<exists>rest. split_ws s = takeWhile (\<lambda>c. \<not> is_space c) s # rest"
  using assms split_from_tok [of "[c]" cs] by (simp add: split_ws_def)

lemma grass_first_char:
  assumes "is_grass cmd"
  shows "\<exists>c cs. cmd = c # cs \<and> \<not> is_space c"
proof -
  from assms obtain p where p: "p \<in> set grass_prefixes" "take (length p) cmd = p"
    by (auto simp: is_grass_def startswith_def list_ex_iff)
  then obtain c cs where c: "p = c # cs" "\<not> is_space c"
    by (auto simp: grass_prefixes_def is_space_def)
  with p(2) show ?thesis
    by (cases cmd) auto
qed

lemma grass_split:
  assumes "is_grass cmd"
  shows "\<exists>rest. split_ws cmd = takeWhile (\<lambda>c. \<not> is_space c) cmd # rest"
  using grass_first_char [OF assms] split_ws_first by blast

lemma contains_iff: "contains sub s \<longleftrightarrow> (\<exists>pre post. s = pre @ sub @ post)"
proof (induction s)
  case Nil
  then show ?case by auto
next
  case (Cons c cs)
  have "startswith (c # cs) sub \<longleftrightarrow> (\<exists>post. c # cs = sub @ post)"
    unfolding startswith_def by (metis append_eq_conv_conj)
  moreover have "(\<exists>pre post. c # cs = pre @ sub @ post) \<longleftrightarrow>
      (\<exists>post. c # cs = sub @ post) \<or> (\<exists>pre post. cs = pre @ sub @ post)"
    by (auto simp: Cons_eq_append_conv)
  ultimately show ?case using Cons.IH by simp
qed

lemma dispatch_append:
  "dispatch h i (xs @ ys) w =
     (case dispatch h i xs w of
        (r1, w1) \<Rightarrow> (case dispatch h (i + length xs) ys w1 of (r2, w2) \<Rightarrow> (r1 @ r2, w2)))"
  by (induction xs arbitrary: i w) (auto split: prod.splits)

lemma dispatch_length: "length (fst (dispatch h i cmds w)) = length cmds"
  by (induction cmds arbitrary: i w) (simp_all add: case_prod_beta)

lemma dispatch_nth:
  assumes "n < length cmds"
  shows "fst (dispatch h i cmds w) ! n =
     (i + n, cmds ! n, fst (execute_one h (cmds ! n) (snd (dispatch h i (take n cmds) w))))"
proof -
  have c: "cmds = take n cmds @ (cmds ! n # drop (Suc n) cmds)"
    using assms by (simp add: id_take_nth_drop)
  have l: "length (fst (dispatch h i (take n cmds) w)) = n"
    using assms by (simp add: dispatch_length)
  show ?thesis
    apply (subst c)
    apply (subst dispatch_append)
    using l assms
    apply (auto split: prod.splits simp: nth_append)
    done
qed

section \<open>The dispatch loop\<close>

lemma dispatch_cmds: "map (\<lambda>r. fst (snd r)) (fst (dispatch h i cmds w)) = cmds"
  by (induction cmds arbitrary: i w) (simp_all add: case_prod_beta)

lemma dispatch_world:
  "snd (dispatch h i cmds w) = foldl (\<lambda>w' cmd. snd (execute_one h cmd w')) w cmds"
  by (induction cmds arbitrary: i w) (simp_all add: case_prod_beta)

lemma extract_and_execute_dispatch:
  "extract_and_execute_commands h response w =
     (extract_commands response, dispatch h 1 (extract_commands response) w)"
  by (cases "extract_commands response") (simp_all add: extract_and_execute_commands_def)

text \<open>
  C1: the loop reports every candidate once, in input order and numbered from the start
  index, and runs them one after the other: the list of reports is as long as the list
  of candidates, its candidates are the input, the world it leaves is the one obtained
  by executing the candidates from left to right, each in the world left by the one
  before it, and report \<^verbatim>\<open>n\<close> is the outcome of executing candidate \<^verbatim>\<open>n\<close> in the
  world left by the candidates before it, whatever their outcomes were. The whole
  function returns the candidates and dispatches exactly them.
\<close>

theorem dispatch_reports_every_candidate:
  "length (fst (dispatch h i cmds w)) = length cmds \<and>
   map (\<lambda>r. fst (snd r)) (fst (dispatch h i cmds w)) = cmds \<and>
   snd (dispatch h i cmds w) = foldl (\<lambda>w' cmd. snd (execute_one h cmd w')) w cmds \<and>
   (\<forall>n < length cmds.
      fst (dispatch h i cmds w) ! n =
        (i + n, cmds ! n,
         fst (execute_one h (cmds ! n)
                (foldl (\<lambda>w' cmd. snd (execute_one h cmd w')) w (take n cmds))))) \<and>
   extract_and_execute_commands h response w =
     (extract_commands response, dispatch h 1 (extract_commands response) w)"
proof (intro conjI allI impI)
  show "length (fst (dispatch h i cmds w)) = length cmds"
    by (rule dispatch_length)
  show "map (\<lambda>r. fst (snd r)) (fst (dispatch h i cmds w)) = cmds"
    by (rule dispatch_cmds)
  show "snd (dispatch h i cmds w) = foldl (\<lambda>w' cmd. snd (execute_one h cmd w')) w cmds"
    by (rule dispatch_world)
  show "extract_and_execute_commands h response w =
     (extract_commands response, dispatch h 1 (extract_commands response) w)"
    by (rule extract_and_execute_dispatch)
next
  fix n assume "n < length cmds"
  from dispatch_nth [OF this, of h i w]
  show "fst (dispatch h i cmds w) ! n =
        (i + n, cmds ! n,
         fst (execute_one h (cmds ! n)
                (foldl (\<lambda>w' cmd. snd (execute_one h cmd w')) w (take n cmds))))"
    by (simp add: dispatch_world)
qed

theorem dispatch_reports_every_candidate_witness:
  "(3::nat) < length [''r.bogus x'', ''wget u'', ''bogus.cmd'', ''g.region -p''] \<and>
   fst (dispatch demo_host 1 [''r.bogus x'', ''wget u'', ''bogus.cmd'', ''g.region -p''] []) ! 3 =
     (4, ''g.region -p'', Success ''projection: 1'') \<and>
   map snd (fst (dispatch demo_host 1 [''r.bogus x'', ''wget u'', ''bogus.cmd'', ''g.region -p''] [])) =
     [(''r.bogus x'', ErrorExec ''r.bogus x'' ''module not found''),
      (''wget u'', ErrorExec ''wget u'' ''timed out after 60 seconds''),
      (''bogus.cmd'', UnknownType ''bogus.cmd''),
      (''g.region -p'', Success ''projection: 1'')] \<and>
   snd (dispatch demo_host 1 [''r.bogus x'', ''wget u'', ''bogus.cmd'', ''g.region -p''] []) =
     [ReadCommand ''r.bogus'' [(''input'', ''x'')], SubprocessRun [''wget'', ''u''] 60,
      ReadCommand ''g.region'' [(''input'', ''-p'')]]"
proof -
  let ?cmds = "[''r.bogus x'', ''wget u'', ''bogus.cmd'', ''g.region -p'']"
  let ?step = "\<lambda>w' cmd. snd (execute_one demo_host cmd w')"
  have v: "fst (execute_one demo_host (?cmds ! 3) (foldl ?step [] (take 3 ?cmds))) =
      Success ''projection: 1''"
    by code_simp
  have a: "map snd (fst (dispatch demo_host 1 ?cmds [])) =
     [(''r.bogus x'', ErrorExec ''r.bogus x'' ''module not found''),
      (''wget u'', ErrorExec ''wget u'' ''timed out after 60 seconds''),
      (''bogus.cmd'', UnknownType ''bogus.cmd''),
      (''g.region -p'', Success ''projection: 1'')]"
    by code_simp
  have f: "foldl ?step [] ?cmds =
     [ReadCommand ''r.bogus'' [(''input'', ''x'')], SubprocessRun [''wget'', ''u''] 60,
      ReadCommand ''g.region'' [(''input'', ''-p'')]]"
    by code_simp
  have n: "(3::nat) < length ?cmds" by simp
  note t = dispatch_reports_every_candidate [of demo_host 1 ?cmds "[]"]
  from t n
  have "fst (dispatch demo_host 1 ?cmds []) ! 3 =
      (1 + 3, ?cmds ! 3, fst (execute_one demo_host (?cmds ! 3) (foldl ?step [] (take 3 ?cmds))))"
    by blast
  with v have r: "fst (dispatch demo_host 1 ?cmds []) ! 3 =
      (4, ''g.region -p'', Success ''projection: 1'')"
    by simp
  from t have "snd (dispatch demo_host 1 ?cmds []) = foldl ?step [] ?cmds" by blast
  with f have w: "snd (dispatch demo_host 1 ?cmds []) =
     [ReadCommand ''r.bogus'' [(''input'', ''x'')], SubprocessRun [''wget'', ''u''] 60,
      ReadCommand ''g.region'' [(''input'', ''-p'')]]"
    by (simp only:)
  from n r a w show ?thesis by blast
qed

section \<open>Classification of a candidate\<close>

lemma startswith_iff: "startswith s p \<longleftrightarrow> (\<exists>rest. s = p @ rest)"
  unfolding startswith_def by (metis append_eq_conv_conj append_take_drop_id)

lemma is_grass_iff:
  "is_grass cmd \<longleftrightarrow>
     (\<exists>p \<in> set [''g.'', ''r.'', ''v.'', ''i.'', ''db.'', ''t.'', ''m.'', ''d.'', ''ps.'', ''r3.''].
        \<exists>rest. cmd = p @ rest)"
  unfolding is_grass_def grass_prefixes_def list_ex_iff startswith_iff ..

lemma is_system_iff:
  "is_system cmd \<longleftrightarrow>
     (\<exists>rest. cmd = ''gdal'' @ rest) \<or>
     (\<exists>tool \<in> set [''wget'', ''curl'', ''unzip'', ''tar'', ''gzip'', ''awk'', ''sed'', ''grep''].
        \<exists>pre post. cmd = pre @ tool @ post)"
  unfolding is_system_def linux_tools_def list_ex_iff startswith_iff contains_iff ..

lemma execute_grass:
  assumes "is_grass cmd"
  shows "\<exists>rest. split_ws cmd = takeWhile (\<lambda>c. \<not> is_space c) cmd # rest \<and>
     execute_one h cmd w =
       (case read_command h (takeWhile (\<lambda>c. \<not> is_space c) cmd) (parse_params rest []) w of
          (Inl e, w') \<Rightarrow> (ErrorExec cmd e, w')
        | (Inr result, w') \<Rightarrow> (Success (truncate_output result), w'))"
proof -
  from grass_split [OF assms] obtain rest
    where "split_ws cmd = takeWhile (\<lambda>c. \<not> is_space c) cmd # rest" ..
  with assms show ?thesis by (simp add: execute_one_def)
qed

lemma execute_system:
  assumes "\<not> is_grass cmd" "is_system cmd"
  shows "execute_one h cmd w =
       (case subprocess_run h (split_ws cmd) 60 w of
          (Inl e, w') \<Rightarrow> (ErrorExec cmd e, w')
        | (Inr result, w') \<Rightarrow>
            (if returncode result = 0 then (Success (truncate_output (stdout result)), w')
             else (Failed (stderr result), w')))"
  using assms by (simp add: execute_one_def)

lemma execute_unknown:
  assumes "\<not> is_grass cmd" "\<not> is_system cmd"
  shows "execute_one h cmd w = (UnknownType cmd, w)"
  using assms by (simp add: execute_one_def)

text \<open>
  C2: a candidate that starts with one of the ten namespace prefixes goes to the
  structured backend; otherwise one that starts with "gdal" or contains one of the
  eight shell-utility names goes to the process backend; every other candidate is
  reported as of unknown type and the world is left as it was.
\<close>

theorem classification_three_rules:
  "(is_grass cmd \<longleftrightarrow>
      (\<exists>p \<in> set [''g.'', ''r.'', ''v.'', ''i.'', ''db.'', ''t.'', ''m.'', ''d.'', ''ps.'', ''r3.''].
         \<exists>rest. cmd = p @ rest)) \<and>
   (is_system cmd \<longleftrightarrow>
      (\<exists>rest. cmd = ''gdal'' @ rest) \<or>
      (\<exists>tool \<in> set [''wget'', ''curl'', ''unzip'', ''tar'', ''gzip'', ''awk'', ''sed'', ''grep''].
         \<exists>pre post. cmd = pre @ tool @ post)) \<and>
   (is_grass cmd \<longrightarrow>
      (\<exists>module rest. split_ws cmd = module # rest \<and>
         execute_one h cmd w =
           (case read_command h module (parse_params rest []) w of
              (Inl e, w') \<Rightarrow> (ErrorExec cmd e, w')
            | (Inr result, w') \<Rightarrow> (Success (truncate_output result), w')))) \<and>
   (\<not> is_grass cmd \<and> is_system cmd \<longrightarrow>
      execute_one h cmd w =
        (case subprocess_run h (split_ws cmd) 60 w of
           (Inl e, w') \<Rightarrow> (ErrorExec cmd e, w')
         | (Inr result, w') \<Rightarrow>
             (if returncode result = 0 then (Success (truncate_output (stdout result)), w')
              else (Failed (stderr result), w')))) \<and>
   (\<not> is_grass cmd \<and> \<not> is_system cmd \<longrightarrow> execute_one h cmd w = (UnknownType cmd, w))"
proof (intro conjI impI)
  assume "is_grass cmd"
  from execute_grass [OF this, of h w]
  show "\<exists>module rest. split_ws cmd = module # rest \<and>
         execute_one h cmd w =
           (case read_command h module (parse_params rest []) w of
              (Inl e, w') \<Rightarrow> (ErrorExec cmd e, w')
            | (Inr result, w') \<Rightarrow> (Success (truncate_output result), w'))"
    by blast
next
  assume "\<not> is_grass cmd \<and> is_system cmd"
  then show "execute_one h cmd w =
        (case subprocess_run h (split_ws cmd) 60 w of
           (Inl e, w') \<Rightarrow> (ErrorExec cmd e, w')
         | (Inr result, w') \<Rightarrow>
             (if returncode result = 0 then (Success (truncate_output (stdout result)), w')
              else (Failed (stderr result), w')))"
    by (simp add: execute_system)
next
  assume "\<not> is_grass cmd \<and> \<not> is_system cmd"
  then show "execute_one h cmd w = (UnknownType cmd, w)"
    by (simp add: execute_unknown)
qed (rule is_grass_iff is_system_iff)+

theorem classification_three_rules_witness:
  "is_grass ''r.info map=elevation'' \<and>
   execute_one demo_host ''r.info map=elevation'' [] =
     (ErrorExec ''r.info map=elevation'' ''module not found'',
      [ReadCommand ''r.info'' [(''map'', ''elevation'')]]) \<and>
   \<not> is_grass ''gdalinfo a.tif'' \<and> is_system ''gdalinfo a.tif'' \<and>
   execute_one demo_host ''gdalinfo a.tif'' [] =
     (Success ''Driver: GTiff'', [SubprocessRun [''gdalinfo'', ''a.tif''] 60]) \<and>
   \<not> is_grass ''bogus.cmd'' \<and> \<not> is_system ''bogus.cmd'' \<and>
   execute_one demo_host ''bogus.cmd'' [] = (UnknownType ''bogus.cmd'', [])"
proof -
  have g: "is_grass ''r.info map=elevation''" by code_simp
  have s: "\<not> is_grass ''gdalinfo a.tif''" "is_system ''gdalinfo a.tif''" by code_simp+
  have u: "\<not> is_grass ''bogus.cmd''" "\<not> is_system ''bogus.cmd''" by code_simp+
  have sw: "split_ws ''r.info map=elevation'' = [''r.info'', ''map=elevation'']"
     "split_ws ''gdalinfo a.tif'' = [''gdalinfo'', ''a.tif'']" by code_simp+
  have pp: "parse_params [''map=elevation''] [] = [(''map'', ''elevation'')]" by code_simp
  from classification_three_rules [of "''r.info map=elevation''" demo_host "[]"] g sw pp
  have 1: "execute_one demo_host ''r.info map=elevation'' [] =
     (ErrorExec ''r.info map=elevation'' ''module not found'',
      [ReadCommand ''r.info'' [(''map'', ''elevation'')]])"
    by (auto simp: demo_host_def)
  from classification_three_rules [of "''gdalinfo a.tif''" demo_host "[]"] s sw
  have 2: "execute_one demo_host ''gdalinfo a.tif'' [] =
     (Success ''Driver: GTiff'', [SubprocessRun [''gdalinfo'', ''a.tif''] 60])"
    by (simp add: demo_host_def truncate_output_def)
  from classification_three_rules [of "''bogus.cmd''" demo_host "[]"] u
  have 3: "execute_one demo_host ''bogus.cmd'' [] = (UnknownType ''bogus.cmd'', [])"
    by blast
  from g s u 1 2 3 show ?thesis by blast
qed

section \<open>Arguments of a structured command\<close>











section \<open>Failures of the process backend\<close>

text \<open>
  C7: a process candidate is run through \<^verbatim>\<open>subprocess.run\<close> with the timeout 60. When
  the call raises (as it does when the timeout expires) the report is the handler's
  error with the exception's message; when it returns a non-zero status the report is
  the failure with the captured standard error. In both cases the loop goes on with the
  remaining candidates and reports each of them.
\<close>

theorem process_backend_failures:
  assumes "\<not> is_grass cmd" "is_system cmd"
    and "subprocess_run h (split_ws cmd) 60 w = (r, w')"
  shows "(\<forall>e. r = Inl e \<longrightarrow> execute_one h cmd w = (ErrorExec cmd e, w')) \<and>
         (\<forall>res. r = Inr res \<and> returncode res \<noteq> 0 \<longrightarrow>
             execute_one h cmd w = (Failed (stderr res), w')) \<and>
         dispatch h i (cmd # cmds) w =
           ((i, cmd, fst (execute_one h cmd w)) # fst (dispatch h (Suc i) cmds w'),
            snd (dispatch h (Suc i) cmds w')) \<and>
         length (fst (dispatch h (Suc i) cmds w')) = length cmds"
proof -
  have e: "execute_one h cmd w =
       (case r of Inl e \<Rightarrow> ErrorExec cmd e
        | Inr result \<Rightarrow>
            (if returncode result = 0 then Success (truncate_output (stdout result))
             else Failed (stderr result)), w')"
    using assms by (simp add: execute_system split: sum.splits)
  then have "snd (execute_one h cmd w) = w'" by simp
  then have "dispatch h i (cmd # cmds) w =
           ((i, cmd, fst (execute_one h cmd w)) # fst (dispatch h (Suc i) cmds w'),
            snd (dispatch h (Suc i) cmds w'))"
    by (simp add: case_prod_beta)
  with e show ?thesis by (simp add: dispatch_length)
qed

theorem process_backend_failures_witness:
  "\<not> is_grass ''wget http://x/y.zip'' \<and> is_system ''wget http://x/y.zip'' \<and>
   subprocess_run demo_host (split_ws ''wget http://x/y.zip'') 60 [] =
     (Inl ''timed out after 60 seconds'', [SubprocessRun [''wget'', ''http://x/y.zip''] 60]) \<and>
   \<not> is_grass ''tar xf a.tar'' \<and> is_system ''tar xf a.tar'' \<and>
   subprocess_run demo_host (split_ws ''tar xf a.tar'') 60 [] =
     (Inr \<lparr> returncode = 1, stdout = [], stderr = ''No such file'' \<rparr>,
      [SubprocessRun [''tar'', ''xf'', ''a.tar''] 60]) \<and>
   dispatch demo_host 1 [''wget http://x/y.zip'', ''g.region''] [] =
     ([(1, ''wget http://x/y.zip'', ErrorExec ''wget http://x/y.zip'' ''timed out after 60 seconds''),
       (2, ''g.region'', Success ''projection: 1'')],
      [SubprocessRun [''wget'', ''http://x/y.zip''] 60, ReadCommand ''g.region'' []]) \<and>
   dispatch demo_host 1 [''tar xf a.tar'', ''g.region''] [] =
     ([(1, ''tar xf a.tar'', Failed ''No such file''),
       (2, ''g.region'', Success ''projection: 1'')],
      [SubprocessRun [''tar'', ''xf'', ''a.tar''] 60, ReadCommand ''g.region'' []])"
proof -
  let ?w = "''wget http://x/y.zip''" and ?t = "''tar xf a.tar''"
  let ?w1 = "[SubprocessRun [''wget'', ''http://x/y.zip''] 60]"
  let ?t1 = "[SubprocessRun [''tar'', ''xf'', ''a.tar''] 60]"
  have cw: "\<not> is_grass ?w" "is_system ?w" by code_simp+
  have ct: "\<not> is_grass ?t" "is_system ?t" by code_simp+
  have rw: "subprocess_run demo_host (split_ws ?w) 60 [] = (Inl ''timed out after 60 seconds'', ?w1)"
    by code_simp
  have rt: "subprocess_run demo_host (split_ws ?t) 60 [] =
     (Inr \<lparr> returncode = 1, stdout = [], stderr = ''No such file'' \<rparr>, ?t1)"
    by code_simp
  have nw: "dispatch demo_host 2 [''g.region''] ?w1 =
     ([(2, ''g.region'', Success ''projection: 1'')], ?w1 @ [ReadCommand ''g.region'' []])"
    by code_simp
  have nt: "dispatch demo_host 2 [''g.region''] ?t1 =
     ([(2, ''g.region'', Success ''projection: 1'')], ?t1 @ [ReadCommand ''g.region'' []])"
    by code_simp
  from process_backend_failures [OF cw rw, of 1 "[''g.region'']"] nw
  have 1: "dispatch demo_host 1 [?w, ''g.region''] [] =
     ([(1, ?w, ErrorExec ?w ''timed out after 60 seconds''),
       (2, ''g.region'', Success ''projection: 1'')],
      [SubprocessRun [''wget'', ''http://x/y.zip''] 60, ReadCommand ''g.region'' []])"
    by (simp del: dispatch.simps add: numeral_2_eq_2)
  from process_backend_failures [OF ct rt, of 1 "[''g.region'']"] nt
  have 2: "dispatch demo_host 1 [?t, ''g.region''] [] =
     ([(1, ?t, Failed ''No such file''),
       (2, ''g.region'', Success ''projection: 1'')],
      [SubprocessRun [''tar'', ''xf'', ''a.tar''] 60, ReadCommand ''g.region'' []])"
    by (simp del: dispatch.simps add: numeral_2_eq_2)
  from cw ct rw rt 1 2 show ?thesis by blast
qed

section \<open>Truncation of the reported output\<close>

lemma truncate_output_cases:
  "truncate_output full = (if length full \<le> 500 then full else take 500 full @ ''...'')"
  by (simp add: truncate_output_def)

lemma execute_grass_success:
  assumes "is_grass cmd" "split_ws cmd = module # rest"
    and "read_command h module (parse_params rest []) w = (Inr full, w')"
  shows "execute_one h cmd w = (Success (truncate_output full), w')"
  using assms by (simp add: execute_one_def)

lemma execute_system_success:
  assumes "\<not> is_grass cmd" "is_system cmd"
    and "subprocess_run h (split_ws cmd) 60 w = (Inr res, w')" "returncode res = 0"
  shows "execute_one h cmd w = (Success (truncate_output (stdout res)), w')"
  using assms by (simp add: execute_one_def)

lemma execute_success_origin:
  assumes "execute_one h cmd w = (Success out, w')"
  shows "(is_grass cmd \<and>
           (\<exists>module rest full. split_ws cmd = module # rest \<and>
              read_command h module (parse_params rest []) w = (Inr full, w') \<and>
              out = truncate_output full)) \<or>
         (\<not> is_grass cmd \<and> is_system cmd \<and>
           (\<exists>res. subprocess_run h (split_ws cmd) 60 w = (Inr res, w') \<and>
              returncode res = 0 \<and> out = truncate_output (stdout res)))"
proof (cases "is_grass cmd")
  case True
  with assms show ?thesis
    by (auto simp: execute_one_def split: list.splits prod.splits sum.splits)
next
  case False
  with assms have s: "is_system cmd"
    by (auto simp: execute_one_def split: if_splits)
  with False assms show ?thesis
    by (auto simp: execute_one_def split: prod.splits sum.splits if_splits)
qed

text \<open>
  C8: when the backend that runs a candidate succeeds (the host returns a result for a
  structured candidate, or the process of a process candidate exits with status 0), the
  candidate is reported as a success carrying the returned text (the host's result, or
  the standard output of the process): the whole text when it has at most 500
  characters, otherwise its first 500 characters followed by "...". Conversely every
  reported success arises in one of these two ways, from the call made for that
  candidate.
\<close>

theorem success_output_truncated:
  "(is_grass cmd \<and> split_ws cmd = module # rest \<and>
      read_command h module (parse_params rest []) w = (Inr full, w') \<longrightarrow>
        execute_one h cmd w =
          (Success (if length full \<le> 500 then full else take 500 full @ ''...''), w')) \<and>
   (\<not> is_grass cmd \<and> is_system cmd \<and>
      subprocess_run h (split_ws cmd) 60 w = (Inr res, w') \<and> returncode res = 0 \<longrightarrow>
        execute_one h cmd w =
          (Success (if length (stdout res) \<le> 500 then stdout res
                    else take 500 (stdout res) @ ''...''), w')) \<and>
   (execute_one h cmd w = (Success out, w') \<longrightarrow>
      (is_grass cmd \<and>
         (\<exists>module rest full. split_ws cmd = module # rest \<and>
            read_command h module (parse_params rest []) w = (Inr full, w') \<and>
            out = (if length full \<le> 500 then full else take 500 full @ ''...''))) \<or>
      (\<not> is_grass cmd \<and> is_system cmd \<and>
         (\<exists>res. subprocess_run h (split_ws cmd) 60 w = (Inr res, w') \<and>
            returncode res = 0 \<and>
            out = (if length (stdout res) \<le> 500 then stdout res
                   else take 500 (stdout res) @ ''...''))))"
proof (intro conjI impI)
  assume a: "is_grass cmd \<and> split_ws cmd = module # rest \<and>
      read_command h module (parse_params rest []) w = (Inr full, w')"
  then have g: "is_grass cmd" and s: "split_ws cmd = module # rest"
    and r: "read_command h module (parse_params rest []) w = (Inr full, w')"
    by simp_all
  from execute_grass_success [OF g s r]
  have "execute_one h cmd w = (Success (truncate_output full), w')" .
  then show "execute_one h cmd w =
          (Success (if length full \<le> 500 then full else take 500 full @ ''...''), w')"
    by (simp add: truncate_output_cases)
next
  assume a: "\<not> is_grass cmd \<and> is_system cmd \<and>
      subprocess_run h (split_ws cmd) 60 w = (Inr res, w') \<and> returncode res = 0"
  then have g: "\<not> is_grass cmd" and s: "is_system cmd"
    and r: "subprocess_run h (split_ws cmd) 60 w = (Inr res, w')" and z: "returncode res = 0"
    by simp_all
  from execute_system_success [OF g s r z]
  have "execute_one h cmd w = (Success (truncate_output (stdout res)), w')" .
  then show "execute_one h cmd w =
          (Success (if length (stdout res) \<le> 500 then stdout res
                    else take 500 (stdout res) @ ''...''), w')"
    by (simp add: truncate_output_cases)
next
  assume "execute_one h cmd w = (Success out, w')"
  from execute_success_origin [OF this]
  have "(is_grass cmd \<and>
           (\<exists>module rest full. split_ws cmd = module # rest \<and>
              read_command h module (parse_params rest []) w = (Inr full, w') \<and>
              out = truncate_output full)) \<or>
         (\<not> is_grass cmd \<and> is_system cmd \<and>
           (\<exists>res. subprocess_run h (split_ws cmd) 60 w = (Inr res, w') \<and>
              returncode res = 0 \<and> out = truncate_output (stdout res)))" .
  then show "(is_grass cmd \<and>
         (\<exists>module rest full. split_ws cmd = module # rest \<and>
            read_command h module (parse_params rest []) w = (Inr full, w') \<and>
            out = (if length full \<le> 500 then full else take 500 full @ ''...''))) \<or>
      (\<not> is_grass cmd \<and> is_system cmd \<and>
         (\<exists>res. subprocess_run h (split_ws cmd) 60 w = (Inr res, w') \<and>
            returncode res = 0 \<and>
            out = (if length (stdout res) \<le> 500 then stdout res
                   else take 500 (stdout res) @ ''...'')))"
    unfolding truncate_output_cases .
qed

theorem success_output_truncated_witness:
  "is_grass ''g.list'' \<and> split_ws ''g.list'' = [''g.list''] \<and>
   read_command demo_host ''g.list'' (parse_params [] []) [] =
     (Inr long_output, [ReadCommand ''g.list'' []]) \<and>
   length long_output = 501 \<and>
   execute_one demo_host ''g.list'' [] =
     (Success (take 500 long_output @ ''...''), [ReadCommand ''g.list'' []]) \<and>
   \<not> is_grass ''gdalinfo a.tif'' \<and> is_system ''gdalinfo a.tif'' \<and>
   subprocess_run demo_host (split_ws ''gdalinfo a.tif'') 60 [] =
     (Inr \<lparr> returncode = 0, stdout = ''Driver: GTiff'', stderr = [] \<rparr>,
      [SubprocessRun [''gdalinfo'', ''a.tif''] 60]) \<and>
   execute_one demo_host ''gdalinfo a.tif'' [] =
     (Success ''Driver: GTiff'', [SubprocessRun [''gdalinfo'', ''a.tif''] 60])"
proof -
  have g: "is_grass ''g.list''" by code_simp
  have sw: "split_ws ''g.list'' = [''g.list'']" by code_simp
  have len: "length long_output = 501" by (simp add: long_output_def)
  have r: "read_command demo_host ''g.list'' (parse_params [] []) [] =
     (Inr long_output, [ReadCommand ''g.list'' []])"
    by (simp add: demo_host_def)
  note t1 = success_output_truncated [where cmd = "''g.list''" and module = "''g.list''"
      and rest = "[]" and h = demo_host and w = "[]" and full = long_output
      and w' = "[ReadCommand ''g.list'' []]", THEN conjunct1]
  from t1 g sw r
  have "execute_one demo_host ''g.list'' [] =
     (Success (if length long_output \<le> 500 then long_output
               else take 500 long_output @ ''...''), [ReadCommand ''g.list'' []])"
    by blast
  with len have e: "execute_one demo_host ''g.list'' [] =
     (Success (take 500 long_output @ ''...''), [ReadCommand ''g.list'' []])"
    by simp
  have s: "\<not> is_grass ''gdalinfo a.tif''" "is_system ''gdalinfo a.tif''" by code_simp+
  let ?res = "\<lparr> returncode = 0, stdout = ''Driver: GTiff'', stderr = [] \<rparr>"
  have p: "subprocess_run demo_host (split_ws ''gdalinfo a.tif'') 60 [] =
     (Inr ?res, [SubprocessRun [''gdalinfo'', ''a.tif''] 60])"
    by code_simp
  have z: "returncode ?res = 0" by simp
  note t2 = success_output_truncated [where cmd = "''gdalinfo a.tif''" and h = demo_host
      and w = "[]" and res = ?res and w' = "[SubprocessRun [''gdalinfo'', ''a.tif''] 60]",
      THEN conjunct2, THEN conjunct1]
  from t2 s p z
  have "execute_one demo_host ''gdalinfo a.tif'' [] =
     (Success (if length (stdout ?res) \<le> 500 then stdout ?res
               else take 500 (stdout ?res) @ ''...''),
      [SubprocessRun [''gdalinfo'', ''a.tif''] 60])"
    by blast
  then have e2: "execute_one demo_host ''gdalinfo a.tif'' [] =
     (Success ''Driver: GTiff'', [SubprocessRun [''gdalinfo'', ''a.tif''] 60])"
    by simp
  from g sw r len e s p e2 show ?thesis by blast
qed

section \<open>Deduplication and scanning\<close>

lemma add_matches_append:
  "add_matches acc (xs @ ys) = add_matches (add_matches acc xs) ys"
  by (induction xs arbitrary: acc) simp_all

lemma foldl_add_matches:
  "foldl (\<lambda>acc p. add_matches acc (f p)) acc ps = add_matches acc (concat (map f ps))"
  by (induction ps arbitrary: acc) (simp_all add: add_matches_append)

lemma add_matches_dedup:
  "add_matches acc ms = acc @ dedup_keep_first (filter (\<lambda>m. m \<notin> set acc) ms)"
proof (induction ms arbitrary: acc)
  case Nil
  then show ?case by simp
next
  case (Cons m ms)
  show ?case
  proof (cases "m \<in> set acc")
    case True
    with Cons.IH [of acc] show ?thesis by simp
  next
    case False
    have "filter (\<lambda>x. x \<notin> set (acc @ [m])) ms = filter (\<lambda>y. y \<noteq> m) (filter (\<lambda>x. x \<notin> set acc) ms)"
      by (induction ms) auto
    with False Cons.IH [of "acc @ [m]"] show ?thesis by simp
  qed
qed

lemma extract_dedup: "extract_commands response = dedup_keep_first (all_matches response)"
  using add_matches_dedup [of "[]" "all_matches response"]
  by (simp add: extract_commands_def all_matches_def foldl_add_matches)

lemma set_dedup: "set (dedup_keep_first xs) = set xs"
  by (induction xs rule: dedup_keep_first.induct) auto

lemma distinct_dedup: "distinct (dedup_keep_first xs)"
  by (induction xs rule: dedup_keep_first.induct) (auto simp: set_dedup)

lemma dedup_filter:
  "dedup_keep_first (filter P xs) = filter P (dedup_keep_first xs)"
proof (induction xs rule: dedup_keep_first.induct)
  case 1
  then show ?case by simp
next
  case (2 x xs)
  have c: "filter (\<lambda>y. y \<noteq> x) (filter P xs) = filter P (filter (\<lambda>y. y \<noteq> x) xs)"
    by (induction xs) auto
  show ?case
  proof (cases "P x")
    case True
    with 2 c show ?thesis by simp
  next
    case False
    then have "filter P xs = filter P (filter (\<lambda>y. y \<noteq> x) xs)"
      by (induction xs) auto
    with False 2 show ?thesis by simp
  qed
qed

lemma dedup_snoc:
  "dedup_keep_first (xs @ [x]) =
     (if x \<in> set xs then dedup_keep_first xs else dedup_keep_first xs @ [x])"
proof (induction xs rule: dedup_keep_first.induct)
  case 1
  then show ?case by simp
next
  case (2 y ys)
  then show ?case by (auto simp: dedup_filter set_dedup)
qed

declare scan.simps [simp del]

lemma scan_out: "length s < p \<Longrightarrow> scan r s p = []"
  by (subst scan.simps) simp

lemma scan_miss:
  "\<not> length s < p \<Longrightarrow> rmatch r s (p, None) = [] \<Longrightarrow> scan r s p = scan r s (Suc p)"
  by (subst scan.simps) simp

lemma scan_hit:
  "\<not> length s < p \<Longrightarrow> rmatch r s (p, None) = m # ms \<Longrightarrow>
     scan r s p = (p, m) # scan r s (if p < fst m then fst m else Suc p)"
  by (subst scan.simps) simp

lemma scan_bounds:
  "x \<in> set (scan r s p) \<Longrightarrow> p \<le> fst x \<and> fst x \<le> length s"
proof (induction r s p rule: scan.induct)
  case (1 r s p)
  show ?case
  proof (cases "length s < p")
    case True
    with "1.prems" show ?thesis by (simp add: scan_out)
  next
    case False
    show ?thesis
    proof (cases "rmatch r s (p, None)")
      case Nil
      with False "1.prems" "1.IH"(1) show ?thesis by (fastforce simp: scan_miss)
    next
      case (Cons m ms)
      with False "1.prems" have "x = (p, m) \<or> x \<in> set (scan r s (if p < fst m then fst m else Suc p))"
        by (simp add: scan_hit)
      then show ?thesis
      proof
        assume "x = (p, m)"
        with False show ?thesis by simp
      next
        assume "x \<in> set (scan r s (if p < fst m then fst m else Suc p))"
        with "1.IH"(2) [OF False Cons] show ?thesis by (auto split: if_splits)
      qed
    qed
  qed
qed

lemma scan_sorted: "sorted_wrt (<) (map fst (scan r s p))"
proof (induction r s p rule: scan.induct)
  case (1 r s p)
  show ?case
  proof (cases "length s < p")
    case True
    then show ?thesis by (simp add: scan_out)
  next
    case False
    show ?thesis
    proof (cases "rmatch r s (p, None)")
      case Nil
      with False "1.IH"(1) show ?thesis by (simp add: scan_miss)
    next
      case (Cons m ms)
      let ?q = "if p < fst m then fst m else Suc p"
      have "\<forall>x \<in> set (scan r s ?q). p < fst x"
      proof
        fix x assume "x \<in> set (scan r s ?q)"
        then have "?q \<le> fst x" using scan_bounds by blast
        moreover have "p < ?q" by simp
        ultimately show "p < fst x" by linarith
      qed
      with False Cons "1.IH"(2) [OF False Cons] show ?thesis by (simp add: scan_hit)
    qed
  qed
qed

lemma scan_mem:
  "(q, m) \<in> set (scan r s p) \<Longrightarrow> rmatch r s (q, None) \<noteq> [] \<and> m = hd (rmatch r s (q, None))"
proof (induction r s p rule: scan.induct)
  case (1 r s p)
  show ?case
  proof (cases "length s < p")
    case True
    with "1.prems" show ?thesis by (simp add: scan_out)
  next
    case False
    show ?thesis
    proof (cases "rmatch r s (p, None)")
      case Nil
      with False "1.prems" "1.IH"(1) show ?thesis by (simp add: scan_miss)
    next
      case (Cons m' ms)
      with False "1.prems"
      have "(q, m) = (p, m') \<or> (q, m) \<in> set (scan r s (if p < fst m' then fst m' else Suc p))"
        by (simp add: scan_hit)
      then show ?thesis
      proof
        assume "(q, m) = (p, m')"
        with Cons show ?thesis by simp
      next
        assume "(q, m) \<in> set (scan r s (if p < fst m' then fst m' else Suc p))"
        with "1.IH"(2) [OF False Cons] show ?thesis by simp
      qed
    qed
  qed
qed

lemma scan_empty_iff:
  "scan r s p = [] \<longleftrightarrow> (\<forall>i. p \<le> i \<and> i \<le> length s \<longrightarrow> rmatch r s (i, None) = [])"
proof (induction r s p rule: scan.induct)
  case (1 r s p)
  show ?case
  proof (cases "length s < p")
    case True
    then show ?thesis by (auto simp: scan_out)
  next
    case False
    show ?thesis
    proof (cases "rmatch r s (p, None)")
      case Nil
      have "(\<forall>i. p \<le> i \<and> i \<le> length s \<longrightarrow> rmatch r s (i, None) = []) \<longleftrightarrow>
            (\<forall>i. Suc p \<le> i \<and> i \<le> length s \<longrightarrow> rmatch r s (i, None) = [])"
        using Nil by (metis Suc_leI le_neq_implies_less Suc_leD)
      with False Nil "1.IH"(1) show ?thesis by (simp add: scan_miss)
    next
      case (Cons m ms)
      with False have "scan r s p \<noteq> []" by (simp add: scan_hit)
      moreover from False Cons have "\<not> (\<forall>i. p \<le> i \<and> i \<le> length s \<longrightarrow> rmatch r s (i, None) = [])"
        by (metis le_refl list.distinct(1) not_less)
      ultimately show ?thesis by simp
    qed
  qed
qed

section \<open>Order and uniqueness of the candidates\<close>

lemma count_distinct: "distinct xs \<Longrightarrow> x \<in> set xs \<Longrightarrow> count_list xs x = 1"
  by (induction xs) auto

lemma count_dedup: "x \<in> set xs \<Longrightarrow> count_list (dedup_keep_first xs) x = 1"
proof -
  assume "x \<in> set xs"
  then have "x \<in> set (dedup_keep_first xs)" by (simp add: set_dedup)
  with distinct_dedup [of xs] show ?thesis
    by (rule count_distinct)
qed

lemma findall_scan:
  "findall pat response = map (\<lambda>x. group1 response (snd x)) (scan pat response 0)"
  by (simp add: findall_def case_prod_beta)

text \<open>
  C4: the extraction is the list of all matches, taken pattern by pattern in the
  declared order (the seven namespace patterns, then the gdal pattern, then the
  shell-utility pattern) and in text order within a pattern, deduplicated by equality:
  the first occurrence of a string is kept and later ones change nothing, so the result
  is in order of first occurrence, has no duplicates, and contains every matched string
  exactly once.
\<close>

theorem extraction_order_and_dedup:
  "extract_commands response = dedup_keep_first (all_matches response) \<and>
   all_matches response =
     findall (ns_pattern ''g'') response @ findall (ns_pattern ''r'') response @
     findall (ns_pattern ''v'') response @ findall (ns_pattern ''i'') response @
     findall (ns_pattern ''db'') response @ findall (ns_pattern ''t'') response @
     findall (ns_pattern ''m'') response @
     findall gdal_pattern response @ findall linux_pattern response \<and>
   (\<forall>pat. findall pat response = map (\<lambda>x. group1 response (snd x)) (scan pat response 0) \<and>
          sorted_wrt (<) (map fst (scan pat response 0))) \<and>
   distinct (extract_commands response) \<and>
   set (extract_commands response) = set (all_matches response) \<and>
   (\<forall>c \<in> set (all_matches response). count_list (extract_commands response) c = 1) \<and>
   (\<forall>xs x. dedup_keep_first (xs @ [x :: string]) =
      (if x \<in> set xs then dedup_keep_first xs else dedup_keep_first xs @ [x]))"
proof (intro conjI)
  show "extract_commands response = dedup_keep_first (all_matches response)"
    by (rule extract_dedup)
  show "all_matches response =
     findall (ns_pattern ''g'') response @ findall (ns_pattern ''r'') response @
     findall (ns_pattern ''v'') response @ findall (ns_pattern ''i'') response @
     findall (ns_pattern ''db'') response @ findall (ns_pattern ''t'') response @
     findall (ns_pattern ''m'') response @
     findall gdal_pattern response @ findall linux_pattern response"
    by (simp add: all_matches_def command_patterns_def)
  show "\<forall>pat. findall pat response = map (\<lambda>x. group1 response (snd x)) (scan pat response 0) \<and>
          sorted_wrt (<) (map fst (scan pat response 0))"
    using findall_scan scan_sorted by blast
  show "distinct (extract_commands response)"
    by (simp add: extract_dedup distinct_dedup)
  show "set (extract_commands response) = set (all_matches response)"
    by (simp add: extract_dedup set_dedup)
  show "\<forall>c \<in> set (all_matches response). count_list (extract_commands response) c = 1"
    by (simp add: extract_dedup count_dedup)
  show "\<forall>xs x. dedup_keep_first (xs @ [x :: string]) =
      (if x \<in> set xs then dedup_keep_first xs else dedup_keep_first xs @ [x])"
    using dedup_snoc by blast
qed

theorem extraction_order_and_dedup_witness:
  "all_matches ''wget,g.list,r.info,g.list'' = [''g.list'', ''g.list'', ''r.info'', ''wget''] \<and>
   ''g.list'' \<in> set (all_matches ''wget,g.list,r.info,g.list'') \<and>
   extract_commands ''wget,g.list,r.info,g.list'' = [''g.list'', ''r.info'', ''wget''] \<and>
   count_list (extract_commands ''wget,g.list,r.info,g.list'') ''g.list'' = 1"
proof -
  let ?t = "''wget,g.list,r.info,g.list''"
  have a: "all_matches ?t = [''g.list'', ''g.list'', ''r.info'', ''wget'']"
    by code_simp
  then have m: "''g.list'' \<in> set (all_matches ?t)" by simp
  note t = extraction_order_and_dedup [of ?t]
  from t a have e: "extract_commands ?t = [''g.list'', ''r.info'', ''wget'']" by simp
  from t m have c: "count_list (extract_commands ?t) ''g.list'' = 1" by blast
  from a m e c show ?thesis by blast
qed

lemma no_match_anywhere_iff:
  "no_match_anywhere response \<longleftrightarrow>
     (\<forall>pat \<in> set command_patterns. \<forall>i \<le> length response. rmatch pat response (i, None) = [])"
  by (auto simp del: upt_Suc simp: no_match_anywhere_def list_all_iff less_Suc_eq_le)

lemma findall_empty_iff:
  "findall pat response = [] \<longleftrightarrow> (\<forall>i \<le> length response. rmatch pat response (i, None) = [])"
  by (simp add: findall_scan scan_empty_iff)

lemma extract_empty_iff:
  "extract_commands response = [] \<longleftrightarrow> no_match_anywhere response"
proof -
  have "extract_commands response = [] \<longleftrightarrow> set (all_matches response) = {}"
    using set_dedup [of "all_matches response"] by (simp add: extract_dedup del: set_empty)
       (metis set_empty)
  also have "\<dots> \<longleftrightarrow> (\<forall>pat \<in> set command_patterns. findall pat response = [])"
    by (auto simp: all_matches_def)
  finally show ?thesis by (simp add: no_match_anywhere_iff findall_empty_iff)
qed

text \<open>
  C5: when no pattern matches at any position of the text, the extraction returns the
  empty list (and only then); in particular it returns the empty list for the empty
  text. The extraction has no failing branch.
\<close>

theorem no_match_gives_empty:
  "((\<forall>pat \<in> set command_patterns. \<forall>i \<le> length response. rmatch pat response (i, None) = [])
      \<longrightarrow> extract_commands response = []) \<and>
   (extract_commands response = [] \<longrightarrow>
      (\<forall>pat \<in> set command_patterns. \<forall>i \<le> length response. rmatch pat response (i, None) = [])) \<and>
   extract_commands [] = []"
proof -
  have "no_match_anywhere []" by code_simp
  then have "extract_commands [] = []" by (simp add: extract_empty_iff)
  then show ?thesis using extract_empty_iff [of response] by (simp add: no_match_anywhere_iff)
qed

theorem no_match_gives_empty_witness:
  "no_match_anywhere ''list the maps'' \<and> extract_commands ''list the maps'' = []"
proof -
  have n: "no_match_anywhere ''list the maps''" by code_simp
  then have h: "\<forall>pat \<in> set command_patterns. \<forall>i \<le> length ''list the maps''.
      rmatch pat ''list the maps'' (i, None) = []"
    by (simp only: no_match_anywhere_iff)
  with no_match_gives_empty [of "''list the maps''"] n show ?thesis by blast
qed

section \<open>Properties of the matcher\<close>

declare rmatch.simps [simp del]

lemma no_group_keeps:
  "no_group r \<Longrightarrow> st' \<in> set (rmatch r s st) \<Longrightarrow> snd st' = snd st"
proof (induction r s st arbitrary: st' rule: rmatch.induct)
  case (1 s st)
  then show ?case by (simp add: rmatch.simps)
next
  case (2 s st)
  then show ?case by (simp add: rmatch.simps split: if_splits)
next
  case (3 c s st)
  then show ?case by (auto simp: rmatch.simps split: if_splits)
next
  case (4 k s st)
  then show ?case by (auto simp: rmatch.simps split: if_splits)
next
  case (5 a b s st)
  from "5.prems" obtain x where x: "x \<in> set (rmatch a s st)" "st' \<in> set (rmatch b s x)"
    by (auto simp: rmatch.simps(5))
  from "5.prems"(1) have "no_group a" "no_group b" by simp_all
  with x "5.IH"(1) [of x] "5.IH"(2) [of x st'] show ?case by simp
next
  case (6 a b s st)
  from "6.prems" have "st' \<in> set (rmatch a s st) \<or> st' \<in> set (rmatch b s st)"
    and "no_group a" and "no_group b"
    by (simp_all add: rmatch.simps(6))
  with "6.IH" show ?case by blast
next
  case (7 a s st)
  from "7.prems"(2) have "st' = st \<or>
     (\<exists>x \<in> set (rmatch a s st). fst st < fst x \<and> fst x \<le> length s \<and> st' \<in> set (rmatch (Star a) s x))"
    by (subst (asm) rmatch.simps(7)) auto
  then show ?case
  proof
    assume "st' = st"
    then show ?thesis by simp
  next
    assume "\<exists>x \<in> set (rmatch a s st). fst st < fst x \<and> fst x \<le> length s \<and> st' \<in> set (rmatch (Star a) s x)"
    then obtain x where x: "x \<in> set (rmatch a s st)" "fst st < fst x" "fst x \<le> length s"
      "st' \<in> set (rmatch (Star a) s x)" by blast
    from "7.prems"(1) have na: "no_group a" by simp
    from "7.IH"(1) [OF na x(1)] have "snd x = snd st" .
    moreover from x have "x \<in> set (filter (\<lambda>st'. fst st < fst st' \<and> fst st' \<le> length s) (rmatch a s st))"
      by simp
    from "7.IH"(2) [OF this "7.prems"(1) x(4)] have "snd st' = snd x" .
    ultimately show ?thesis by simp
  qed
next
  case (8 a s st)
  then show ?case by simp
qed

lemma lits_match:
  "st' \<in> set (rmatch (lits w) s st) \<Longrightarrow>
     fst st' = fst st + length w \<and>
     map py_lower (take (length w) (drop (fst st) s)) = map py_lower w"
proof (induction w arbitrary: st rule: lits.induct)
  case 1
  then show ?case by (simp add: rmatch.simps)
next
  case (2 c)
  then have "fst st < length s" "py_lower (s ! fst st) = py_lower c" "st' = (Suc (fst st), snd st)"
    by (auto simp: rmatch.simps split: if_splits)
  then show ?case by (simp add: take_Suc_conv_app_nth hd_drop_conv_nth take_Suc)
next
  case (3 c d ds)
  from "3.prems" obtain x where x: "x \<in> set (rmatch (Lit c) s st)"
     "st' \<in> set (rmatch (lits (d # ds)) s x)"
    by (auto simp: rmatch.simps(5))
  from x(1) have l: "fst st < length s" "py_lower (s ! fst st) = py_lower c" "x = (Suc (fst st), snd st)"
    by (auto simp: rmatch.simps split: if_splits)
  from "3.IH" [OF x(2)] l(3) have ih: "fst st' = Suc (fst st) + length (d # ds)"
    "map py_lower (take (length (d # ds)) (drop (Suc (fst st)) s)) = map py_lower (d # ds)"
    by simp_all
  have "take (length (c # d # ds)) (drop (fst st) s) =
      s ! fst st # take (length (d # ds)) (drop (Suc (fst st)) s)"
    using l(1) by (simp add: Cons_nth_drop_Suc [symmetric])
  with ih l(2) show ?case by simp
qed

lemma alts_match:
  "rs \<noteq> [] \<Longrightarrow> st' \<in> set (rmatch (alts rs) s st) \<Longrightarrow> \<exists>r \<in> set rs. st' \<in> set (rmatch r s st)"
  by (induction rs rule: alts.induct) (auto simp: rmatch.simps(6))

lemma linux_match:
  assumes "m \<in> set (rmatch linux_pattern s (p, None))"
  shows "\<exists>tool \<in> set linux_tools. snd m = Some (p, p + length tool) \<and>
     map py_lower (take (length tool) (drop p s)) = map py_lower tool"
proof -
  let ?A = "alts (map lits linux_tools)"
  from assms obtain x y where x: "x \<in> set (rmatch WordB s (p, None))"
      and y: "y \<in> set (rmatch (Group ?A) s x)" and m: "m \<in> set (rmatch args_re s y)"
    by (auto simp: linux_pattern_def rmatch.simps(5))
  from x have xp: "x = (p, None)" by (simp add: rmatch.simps split: if_splits)
  from y xp obtain z where z: "z \<in> set (rmatch ?A s (p, None))" "y = (fst z, Some (p, fst z))"
    by (auto simp: rmatch.simps(8))
  have "map lits linux_tools \<noteq> []" by (simp add: linux_tools_def)
  from alts_match [OF this z(1)] obtain tool where t: "tool \<in> set linux_tools"
      "z \<in> set (rmatch (lits tool) s (p, None))" by auto
  from lits_match [OF t(2)] have zt: "fst z = p + length tool"
      "map py_lower (take (length tool) (drop p s)) = map py_lower tool" by simp_all
  have "no_group args_re" by (simp add: args_re_def)
  from no_group_keeps [OF this m] z(2) zt(1) have "snd m = Some (p, p + length tool)" by simp
  with t(1) zt(2) show ?thesis by blast
qed

lemma tools_lower: "tool \<in> set linux_tools \<Longrightarrow> map py_lower tool = tool"
  by (auto simp: linux_tools_def py_lower_def)

lemma tools_no_space: "tool \<in> set linux_tools \<Longrightarrow> c \<in> set tool \<Longrightarrow> \<not> is_space c"
  by (auto simp: linux_tools_def is_space_def)

lemma space_lower: "is_space c \<Longrightarrow> py_lower c = c"
  by (auto simp: is_space_def py_lower_def)

text \<open>
  A match never leaves the text, and consumes at least \<^const>\<open>min_len\<close> characters. So
  the progress test in the repetition keeps every iteration whose body cannot match
  the empty string, as is the case for every repetition in the nine patterns, and a
  scan with one of the nine patterns always resumes at the end of the match.
\<close>

lemma rmatch_bounds:
  "st' \<in> set (rmatch r s st) \<Longrightarrow> fst st \<le> length s \<Longrightarrow>
     fst st + min_len r \<le> fst st' \<and> fst st' \<le> length s"
proof (induction r s st arbitrary: st' rule: rmatch.induct)
  case (1 s st)
  then show ?case by (simp add: rmatch.simps)
next
  case (2 s st)
  then show ?case by (simp add: rmatch.simps split: if_splits)
next
  case (3 c s st)
  then show ?case by (auto simp: rmatch.simps split: if_splits)
next
  case (4 k s st)
  then show ?case by (auto simp: rmatch.simps split: if_splits)
next
  case (5 a b s st)
  from "5.prems" obtain x where x: "x \<in> set (rmatch a s st)" "st' \<in> set (rmatch b s x)"
    by (auto simp: rmatch.simps(5))
  from "5.IH"(1) [OF x(1) "5.prems"(2)] have a: "fst st + min_len a \<le> fst x" "fst x \<le> length s"
    by simp_all
  from "5.IH"(2) [OF x(1) x(2) a(2)] a(1) show ?case by simp
next
  case (6 a b s st)
  from "6.prems" have "st' \<in> set (rmatch a s st) \<or> st' \<in> set (rmatch b s st)"
    by (simp add: rmatch.simps(6))
  with "6.IH" "6.prems"(2) show ?case by fastforce
next
  case (7 a s st)
  from "7.prems"(1) have "st' = st \<or>
     (\<exists>x \<in> set (rmatch a s st). fst st < fst x \<and> fst x \<le> length s \<and> st' \<in> set (rmatch (Star a) s x))"
    by (subst (asm) rmatch.simps(7)) auto
  then show ?case
  proof
    assume "st' = st"
    with "7.prems"(2) show ?thesis by simp
  next
    assume "\<exists>x \<in> set (rmatch a s st). fst st < fst x \<and> fst x \<le> length s \<and> st' \<in> set (rmatch (Star a) s x)"
    then obtain x where x: "x \<in> set (rmatch a s st)" "fst st < fst x" "fst x \<le> length s"
      "st' \<in> set (rmatch (Star a) s x)" by blast
    then have "x \<in> set (filter (\<lambda>st'. fst st < fst st' \<and> fst st' \<le> length s) (rmatch a s st))"
      by simp
    from "7.IH"(2) [OF this x(4) x(3)] x(2) show ?thesis by simp
  qed
next
  case (8 a s st)
  from "8.prems"(1) obtain x where "x \<in> set (rmatch a s st)" "fst st' = fst x"
    by (auto simp: rmatch.simps(8))
  with "8.IH" [of x] "8.prems"(2) show ?case by simp
qed

lemma star_filter_inert:
  assumes "0 < min_len a" "fst st \<le> length s"
  shows "filter (\<lambda>st'. fst st < fst st' \<and> fst st' \<le> length s) (rmatch a s st) = rmatch a s st"
proof -
  have "\<forall>x \<in> set (rmatch a s st). fst st < fst x \<and> fst x \<le> length s"
    using rmatch_bounds [OF _ assms(2), of _ a] assms(1) by fastforce
  then show ?thesis by simp
qed

lemma patterns_consume: "pat \<in> set command_patterns \<Longrightarrow> 3 \<le> min_len pat"
  by (auto simp: command_patterns_def ns_pattern_def gdal_pattern_def linux_pattern_def
      linux_tools_def args_re_def)

lemma scan_hit_pattern:
  assumes "pat \<in> set command_patterns" "\<not> length s < p" "rmatch pat s (p, None) = m # ms"
  shows "scan pat s p = (p, m) # scan pat s (fst m)"
proof -
  from assms(3) have "m \<in> set (rmatch pat s (p, None))" by simp
  from rmatch_bounds [OF this] assms(2) patterns_consume [OF assms(1)] have "p < fst m" by simp
  with scan_hit [OF assms(2,3)] show ?thesis by simp
qed

section \<open>Candidates of the shell-utility pattern\<close>

lemma linux_findall:
  assumes "m \<in> set (findall linux_pattern response)"
  shows "\<exists>tool \<in> set linux_tools. \<exists>p. m = take (length tool) (drop p response) \<and> map py_lower m = tool"
proof -
  from assms obtain p st where ps: "(p, st) \<in> set (scan linux_pattern response 0)"
      and m: "m = group1 response st"
    by (auto simp: findall_scan)
  from scan_mem [OF ps] have "st \<in> set (rmatch linux_pattern response (p, None))"
    by (metis hd_in_set)
  from linux_match [OF this] obtain tool where t: "tool \<in> set linux_tools"
      "snd st = Some (p, p + length tool)"
      "map py_lower (take (length tool) (drop p response)) = map py_lower tool"
    by blast
  from m t(2) have "m = take (length tool) (drop p response)" by (simp add: group1_def)
  with t(1,3) tools_lower [OF t(1)] show ?thesis by auto
qed

lemma curl_upper_value:
  "findall linux_pattern ''use CURL -O http://x/y'' = [''CURL'']"
  by code_simp

text \<open>
  C10 (as stated): every candidate produced by the shell-utility pattern is exactly one
  of the tool names wget, curl, unzip, tar, gzip, awk, sed, grep. It is not: the
  pattern ignores case, so the text "use CURL -O http://x/y" yields the candidate
  "CURL", which is none of the eight names.
\<close>

theorem linux_candidate_not_a_listed_name:
  "''CURL'' \<in> set (findall linux_pattern ''use CURL -O http://x/y'') \<and>
   ''CURL'' \<notin> set linux_tools"
  using curl_upper_value by (simp add: linux_tools_def)

text \<open>
  C10 (amended): every match reported for the shell-utility pattern is a candidate of
  the extraction, and it is the tool name alone as the text spells it: a piece of the
  text that equals one of the eight names once its letters are lower-cased, and that
  holds no whitespace, hence none of the arguments the pattern matched over. The text
  is one of code points below 256, as everywhere in this theory.
\<close>

theorem linux_tool_candidates_bare:
  assumes "m \<in> set (findall linux_pattern response)"
  shows "m \<in> set (extract_commands response) \<and>
         map py_lower m \<in> set linux_tools \<and>
         (\<exists>p. m = take (length m) (drop p response)) \<and>
         (\<forall>c \<in> set m. \<not> is_space c)"
proof -
  from linux_findall [OF assms] obtain tool p where t: "tool \<in> set linux_tools"
      "m = take (length tool) (drop p response)" "map py_lower m = tool" by blast
  have "m \<in> set (all_matches response)"
    using assms by (simp add: all_matches_def command_patterns_def)
  then have 1: "m \<in> set (extract_commands response)"
    by (simp add: extract_dedup set_dedup)
  have 2: "\<forall>c \<in> set m. \<not> is_space c"
  proof
    fix c assume c: "c \<in> set m"
    show "\<not> is_space c"
    proof
      assume s: "is_space c"
      from c t(3) have "py_lower c \<in> set tool" by auto
      with s have "c \<in> set tool" by (simp add: space_lower)
      with tools_no_space [OF t(1)] s show False by blast
    qed
  qed
  from t(3) have "length m = length tool" by auto
  with t(2) have 3: "\<exists>p. m = take (length m) (drop p response)" by metis
  from 1 2 3 t(1,3) show ?thesis by blast
qed

theorem linux_tool_candidates_bare_witness:
  "findall linux_pattern ''use CURL -O http://x/y'' = [''CURL''] \<and>
   map fst (map snd (scan linux_pattern ''use CURL -O http://x/y'' 0)) = [22] \<and>
   ''CURL'' \<in> set (extract_commands ''use CURL -O http://x/y'') \<and>
   map py_lower ''CURL'' = ''curl'' \<and> ''curl'' \<in> set linux_tools"
proof -
  let ?t = "''use CURL -O http://x/y''"
  have f: "findall linux_pattern ?t = [''CURL'']" by (rule curl_upper_value)
  have e: "map fst (map snd (scan linux_pattern ?t 0)) = [22]" by code_simp
  have l: "map py_lower ''CURL'' = ''curl''" by code_simp
  from f have "''CURL'' \<in> set (findall linux_pattern ?t)" by simp
  from linux_tool_candidates_bare [OF this] f e l show ?thesis by simp
qed

text \<open>
  C9: the text "G.region" yields the candidate "G.region", since the patterns ignore
  case; the prefix test of the dispatch does not, so the candidate is reported as of
  unknown type and nothing is executed: the world is unchanged whatever the host.
\<close>

theorem case_mismatch_unknown:
  "extract_and_execute_commands h ''G.region'' w =
     ([''G.region''], [(1, ''G.region'', UnknownType ''G.region'')], w) \<and>
   \<not> is_grass ''G.region'' \<and> is_grass ''g.region''"
proof -
  have e: "extract_commands ''G.region'' = [''G.region'']" by code_simp
  have g: "\<not> is_grass ''G.region''" "\<not> is_system ''G.region''" "is_grass ''g.region''"
    by code_simp+
  then have "execute_one h ''G.region'' w = (UnknownType ''G.region'', w)"
    by (simp add: execute_one_def)
  with e g show ?thesis
    by (simp add: extract_and_execute_commands_def)
qed

end
